theory Spec2Isabelle
  imports Complex_Main "HOL-Library.AList" "HOL-Library.Multiset"
begin

section \<open>Python values used by the validator\<close>

text \<open>
  The validator is Python. Its floats are modelled as real numbers (rounding is not
  modelled), its unbounded integers as \<open>int\<close>, and every exception the modelled lines
  can raise is a value of \<open>error\<close>, returned as \<open>Inl\<close>.
  A \<open>dict\<close> is the list of its items in iteration (insertion) order.
\<close>

datatype error = TypeError | ValueError | ZeroDivisionError | IndexError | KeyError | AssertionError

text \<open>\<open>xs[:n]\<close>: a negative bound counts from the end of the list.\<close>

definition py_slice_to :: "int \<Rightarrow> 'a list \<Rightarrow> 'a list" where
  "py_slice_to n xs =
     (if 0 \<le> n then take (nat n) xs else take (length xs - nat (- n)) xs)"

text \<open>\<open>dict(pairs)\<close>: a later pair with a key already present overwrites the value in place.\<close>

definition dict_of :: "('k \<times> 'v) list \<Rightarrow> ('k \<times> 'v) list" where
  "dict_of kvs = fold (\<lambda>(k, v). AList.update k v) kvs []"

text \<open>\<open>int(x)\<close> on a float truncates towards zero.\<close>

definition py_int :: "real \<Rightarrow> int" where
  "py_int x = (if 0 \<le> x then \<lfloor>x\<rfloor> else \<lceil>x\<rceil>)"

section \<open>Weight allocation: \<open>cut_to_max_allowed_weights\<close> and \<open>set_weights\<close>\<close>

text \<open>
  \<open>sorted(items, key=score, reverse=True)\<close> is a stable sort by descending score: it is
  the stable ascending sort by the negated score.
\<close>

definition cut_to_max_allowed_weights :: "(int \<times> real) list \<Rightarrow> int \<Rightarrow> (int \<times> real) list" where
  "cut_to_max_allowed_weights score_dict max_allowed_weights =
     (let sorted_scores = sort_key (\<lambda>x. - snd x) score_dict;
          cut_scores = py_slice_to max_allowed_weights sorted_scores
      in dict_of cut_scores)"

text \<open>
  The loop of \<open>set_weights\<close> over the items of the cut dictionary. The division
  \<open>score * 1000 / scores\<close> raises when the sum is zero.
\<close>

fun weigh_loop :: "real \<Rightarrow> (int \<times> real) list \<Rightarrow> (int \<times> int) list \<Rightarrow> error + (int \<times> int) list" where
  "weigh_loop scores [] weighted_scores = Inr weighted_scores"
| "weigh_loop scores ((uid, score) # rest) weighted_scores =
     (if scores = 0 then Inl ZeroDivisionError
      else weigh_loop scores rest
             (AList.update uid (py_int (score * 1000 / scores)) weighted_scores))"

text \<open>Lines 72 to 91 of \<open>set_weights\<close>: the dictionary that is sent to the ledger.\<close>

definition weighted_scores :: "int \<Rightarrow> (int \<times> real) list \<Rightarrow> error + (int \<times> int) list" where
  "weighted_scores max_allowed_weights score_dict0 =
     (let score_dict = cut_to_max_allowed_weights score_dict0 max_allowed_weights;
          scores = sum_list (map snd score_dict)
      in case weigh_loop scores score_dict [] of
           Inl e \<Rightarrow> Inl e
         | Inr ws \<Rightarrow> Inr (filter (\<lambda>(k, v). v \<noteq> 0) ws))"

text \<open>
  \<open>client.vote\<close> is the ledger call; the ledger is modelled as the list of the votes it
  has received, each vote being the pair of the uid list and the weight list.
\<close>

record validator_settings =
  max_allowed_weights :: int

definition set_weights ::
  "validator_settings \<Rightarrow> (int \<times> real) list \<Rightarrow> (int list \<times> int list) list
     \<Rightarrow> error + (int list \<times> int list) list" where
  "set_weights settings score_dict ledger =
     (case weighted_scores (max_allowed_weights settings) score_dict of
        Inl e \<Rightarrow> Inl e
      | Inr ws \<Rightarrow> Inr (ledger @ [(map fst ws, map snd ws)]))"


section \<open>Replies of the miners\<close>

text \<open>
  A reply is the JSON document of a miner, with the measured \<open>process_time\<close> added by
  \<open>_get_miner_prediction\<close>; a miner that failed is \<open>None\<close>. A field read with
  \<open>.get(key, None)\<close> in the source is an option here, \<open>None\<close> standing for the
  missing key. \<open>process_time\<close> holds \<open>total_seconds()\<close> of the measured duration.
\<close>

record block_data =
  block_number :: "int option"
  transaction_hash :: "string option"

record miner_answer =
  data :: "block_data list option"
  overall_data_hash :: string
  process_time :: real

record miner_prompt =
  token_a :: string
  token_b :: string
  fee :: int
  start_datetime :: string
  end_datetime :: string

section \<open>Built-ins: \<open>max\<close>, \<open>min\<close> and \<open>max\<close> with a key\<close>

text \<open>
  \<open>max\<close> and \<open>min\<close> raise \<open>ValueError\<close> on an empty argument. With a key, \<open>max\<close>
  keeps the first element whose key is maximal: a later element replaces the current
  one only when its key is strictly greater.
\<close>

definition py_max :: "real list \<Rightarrow> error + real" where
  "py_max xs = (case xs of [] \<Rightarrow> Inl ValueError | x # rest \<Rightarrow> Inr (fold max rest x))"

definition py_min :: "real list \<Rightarrow> error + real" where
  "py_min xs = (case xs of [] \<Rightarrow> Inl ValueError | x # rest \<Rightarrow> Inr (fold min rest x))"

fun max_key_loop :: "('a \<Rightarrow> nat) \<Rightarrow> 'a \<Rightarrow> 'a list \<Rightarrow> 'a" where
  "max_key_loop f m [] = m"
| "max_key_loop f m (x # xs) = max_key_loop f (if f m < f x then x else m) xs"

definition py_max_key :: "('a \<Rightarrow> nat) \<Rightarrow> 'a list \<Rightarrow> error + 'a" where
  "py_max_key f xs = (case xs of [] \<Rightarrow> Inl ValueError | x # rest \<Rightarrow> Inr (max_key_loop f x rest))"

section \<open>Scoring: \<open>_score_miner\<close> and \<open>score_miners\<close>\<close>

text \<open>
  The operator \<open>^\<close> of Python is bitwise exclusive or. It is not defined between a float
  and an int: the expression raises \<open>TypeError\<close> whatever the values are.
\<close>

definition py_xor_float_int :: "real \<Rightarrow> int \<Rightarrow> error + real" where
  "py_xor_float_int x n = Inl TypeError"

text \<open>
  The comprehension of \<open>_score_miner\<close> that counts the positions where the miner's record
  and the ground truth carry the same transaction hash. At each position the miner's hash
  is read first, then the ground-truth record, then its hash.
\<close>

fun count_correct :: "block_data list \<Rightarrow> block_data list option \<Rightarrow> error + nat" where
  "count_correct [] gt = Inr 0"
| "count_correct (m # ms) gt =
     (case transaction_hash m of
        None \<Rightarrow> Inl KeyError
      | Some a \<Rightarrow>
          (case gt of
             None \<Rightarrow> Inl KeyError
           | Some [] \<Rightarrow> Inl IndexError
           | Some (g # gs) \<Rightarrow>
               (case transaction_hash g of
                  None \<Rightarrow> Inl KeyError
                | Some b \<Rightarrow>
                    (case count_correct ms (Some gs) of
                       Inl e \<Rightarrow> Inl e
                     | Inr c \<Rightarrow> Inr ((if a = b then 1 else 0) + c)))))"

definition score_miner ::
  "miner_prompt \<Rightarrow> miner_answer option \<Rightarrow> miner_answer \<Rightarrow> error + real" where
  "score_miner prompt miner_answer ground_truth =
     (case miner_answer of
        None \<Rightarrow> Inr 0
      | Some a \<Rightarrow>
          (case data a of
             None \<Rightarrow> Inl KeyError
           | Some ms \<Rightarrow>
               (case count_correct ms (data ground_truth) of
                  Inl e \<Rightarrow> Inl e
                | Inr cnt_correct_entry \<Rightarrow>
                    (let cnt_all = length ms
                     in if cnt_all = 0 then Inl ZeroDivisionError
                        else py_xor_float_int
                               ((real cnt_correct_entry - real cnt_all * 0.75) / real cnt_all * 4) 3))))"

text \<open>
  \<open>score_miners\<close> calls \<open>self._score_miner(miner_answer, trust_miner_result)\<close>: two
  arguments for the three parameters \<open>miner_prompt\<close>, \<open>miner_answer\<close> and
  \<open>ground_truth\<close>. Python raises \<open>TypeError\<close> for the missing argument before the body
  of \<open>_score_miner\<close> runs.
\<close>

definition score_miner_two_args :: "miner_answer \<Rightarrow> miner_answer \<Rightarrow> error + real" where
  "score_miner_two_args miner_answer trust_miner_result = Inl TypeError"

text \<open>The first loop of \<open>score_miners\<close>: a miner without an answer is skipped.\<close>

fun accuracy_loop ::
  "(int \<times> miner_answer option) list \<Rightarrow> miner_answer \<Rightarrow> (int \<times> real) list
     \<Rightarrow> error + (int \<times> real) list" where
  "accuracy_loop [] trust accuracy_score = Inr accuracy_score"
| "accuracy_loop ((uid, miner_response) # rest) trust accuracy_score =
     (case miner_response of
        None \<Rightarrow> accuracy_loop rest trust accuracy_score
      | Some miner_answer \<Rightarrow>
          (case score_miner_two_args miner_answer trust of
             Inl e \<Rightarrow> Inl e
           | Inr score \<Rightarrow>
               if score \<le> 1
               then accuracy_loop rest trust (AList.update uid score accuracy_score)
               else Inl AssertionError))"

text \<open>
  The comprehension that reads \<open>process_time\<close> of every element of \<open>miner_results\<close>.
  It has no filter: subscripting \<open>None\<close> raises \<open>TypeError\<close>.
\<close>

fun process_time_items :: "(int \<times> miner_answer option) list \<Rightarrow> error + (int \<times> real) list" where
  "process_time_items [] = Inr []"
| "process_time_items ((uid, None) # rest) = Inl TypeError"
| "process_time_items ((uid, Some miner_answer) # rest) =
     (case process_time_items rest of
        Inl e \<Rightarrow> Inl e
      | Inr items \<Rightarrow> Inr ((uid, process_time miner_answer) # items))"

text \<open>The comprehension that rescales every process time between the minimum and the maximum.\<close>

fun normalize_items :: "real \<Rightarrow> real \<Rightarrow> (int \<times> real) list \<Rightarrow> error + (int \<times> real) list" where
  "normalize_items min_time max_time [] = Inr []"
| "normalize_items min_time max_time ((uid, t) # rest) =
     (if max_time - min_time = 0 then Inl ZeroDivisionError
      else (case normalize_items min_time max_time rest of
              Inl e \<Rightarrow> Inl e
            | Inr items \<Rightarrow> Inr ((uid, 1 - 0.5 * (t - min_time) / (max_time - min_time)) # items)))"

definition process_time_score :: "(int \<times> miner_answer option) list \<Rightarrow> error + (int \<times> real) list" where
  "process_time_score miner_results =
     (case process_time_items miner_results of
        Inl e \<Rightarrow> Inl e
      | Inr items \<Rightarrow>
          (let times = dict_of items
           in case py_max (map snd times) of
                Inl e \<Rightarrow> Inl e
              | Inr max_time \<Rightarrow>
                  (case py_min (map snd times) of
                     Inl e \<Rightarrow> Inl e
                   | Inr min_time \<Rightarrow> normalize_items min_time max_time times)))"

text \<open>The comprehension over the keys of \<open>accuracy_score\<close> that averages the two scores.\<close>

fun overall_items :: "(int \<times> real) list \<Rightarrow> (int \<times> real) list \<Rightarrow> error + (int \<times> real) list" where
  "overall_items [] time_score = Inr []"
| "overall_items ((uid, a) # rest) time_score =
     (case map_of time_score uid of
        None \<Rightarrow> Inl KeyError
      | Some t \<Rightarrow>
          (case overall_items rest time_score of
             Inl e \<Rightarrow> Inl e
           | Inr items \<Rightarrow> Inr ((uid, (a + t) / 2) # items)))"

text \<open>
  \<open>score_miners\<close> on a list of poll results (both passes over \<open>miner_results\<close> see the
  whole list).
\<close>

definition score_miners ::
  "(int \<times> miner_answer option) list \<Rightarrow> miner_answer \<Rightarrow> error + (int \<times> real) list" where
  "score_miners miner_results trust_miner_result =
     (case accuracy_loop miner_results trust_miner_result [] of
        Inl e \<Rightarrow> Inl e
      | Inr accuracy_score \<Rightarrow>
          (case process_time_score miner_results of
             Inl e \<Rightarrow> Inl e
           | Inr time_score \<Rightarrow> overall_items accuracy_score time_score))"


section \<open>Consensus: the most common hash and the miners that support it\<close>

text \<open>
  \<open>overall_hashes\<close> lists the hash of every reply that is not \<open>None\<close>, in polling order.
\<close>

definition overall_hashes :: "miner_answer option list \<Rightarrow> string list" where
  "overall_hashes miner_answers =
     concat (map (\<lambda>r. case r of None \<Rightarrow> [] | Some a \<Rightarrow> [overall_data_hash a]) miner_answers)"

text \<open>
  \<open>max(set(overall_hashes), key=overall_hashes.count)\<close> walks the hashes in the iteration
  order of a Python set, which the language leaves open (for strings it changes with the
  hash seed of the process). The order is the parameter \<open>set_iter\<close>: it maps the list to
  an enumeration of its distinct elements.
\<close>

definition most_common_hash :: "(string list \<Rightarrow> string list) \<Rightarrow> string list \<Rightarrow> error + string" where
  "most_common_hash set_iter hashes = py_max_key (count_list hashes) (set_iter hashes)"

definition trust_miner_results ::
  "string \<Rightarrow> (int \<times> miner_answer option) list \<Rightarrow> (int \<times> miner_answer) list" where
  "trust_miner_results h miner_results =
     concat (map (\<lambda>(key, r). case r of
                     None \<Rightarrow> []
                   | Some a \<Rightarrow> if overall_data_hash a = h then [(key, a)] else [])
              miner_results)"

section \<open>Spot check: \<open>check_miner_answer\<close>\<close>

text \<open>
  The oracle is \<open>pool_data_fetcher\<close>: the block range of a time window, and the events of
  a token pair between two blocks (the list under \<open>data\<close> of its reply, empty when the
  key is missing). \<open>random.choice\<close> is driven by \<open>rng\<close>, whose value at \<open>k\<close> selects the
  element of the draw number \<open>k\<close>; on an empty list it raises \<open>IndexError\<close>.
\<close>

record pool_data_fetcher =
  get_block_number_range :: "string \<Rightarrow> string \<Rightarrow> int \<times> int"
  get_pool_events_by_token_pairs :: "string \<Rightarrow> string \<Rightarrow> int \<Rightarrow> int \<Rightarrow> int \<Rightarrow> block_data list"

definition ANSWER_CHECK_COUNT :: nat where
  "ANSWER_CHECK_COUNT = 10"

definition random_choice :: "(nat \<Rightarrow> nat) \<Rightarrow> nat \<Rightarrow> 'a list \<Rightarrow> 'a" where
  "random_choice rng k xs = xs ! (rng k mod length xs)"

text \<open>
  The loop of \<open>check_miner_answer\<close>, with \<open>n\<close> iterations left after \<open>k\<close> draws. It
  returns the outcome and the number of draws made.
\<close>

fun check_loop ::
  "pool_data_fetcher \<Rightarrow> miner_prompt \<Rightarrow> int \<times> int \<Rightarrow> block_data list \<Rightarrow> (nat \<Rightarrow> nat)
     \<Rightarrow> nat \<Rightarrow> nat \<Rightarrow> (error + bool) \<times> nat" where
  "check_loop fetcher prompt block_range miner_data rng 0 k = (Inr False, k)"
| "check_loop fetcher prompt block_range miner_data rng (Suc n) k =
     (if miner_data = [] then (Inl IndexError, k)
      else
        (let block_data = random_choice rng k miner_data
         in case block_number block_data of
              None \<Rightarrow> (Inr False, Suc k)
            | Some bn \<Rightarrow>
                if bn < fst block_range \<or> bn > snd block_range then (Inr False, Suc k)
                else if list_ex (\<lambda>block_data_of_pool.
                                   transaction_hash block_data_of_pool = transaction_hash block_data)
                          (get_pool_events_by_token_pairs fetcher
                             (token_a prompt) (token_b prompt) bn bn (fee prompt))
                then (Inr True, Suc k)
                else check_loop fetcher prompt block_range miner_data rng n (Suc k)))"

definition check_miner_answer ::
  "pool_data_fetcher \<Rightarrow> (nat \<Rightarrow> nat) \<Rightarrow> miner_prompt \<Rightarrow> miner_answer \<Rightarrow> (error + bool) \<times> nat" where
  "check_miner_answer fetcher rng prompt answer =
     (let block_range = get_block_number_range fetcher (start_datetime prompt) (end_datetime prompt)
      in case data answer of
           None \<Rightarrow> (Inr False, 0)
         | Some miner_data \<Rightarrow> check_loop fetcher prompt block_range miner_data rng ANSWER_CHECK_COUNT 0)"

text \<open>
  What one draw can be, for the block range resolved by the oracle: its block number lies
  outside the range; it lies inside and the oracle lists the transaction hash of the
  record at that block; or it lies inside and the oracle does not list it. (A record
  without a block number is none of the three; the loop rejects it.)
\<close>

definition draw_outside :: "int \<times> int \<Rightarrow> block_data \<Rightarrow> bool" where
  "draw_outside block_range b =
     (case block_number b of None \<Rightarrow> False | Some bn \<Rightarrow> bn < fst block_range \<or> snd block_range < bn)"

definition draw_matches :: "pool_data_fetcher \<Rightarrow> miner_prompt \<Rightarrow> int \<times> int \<Rightarrow> block_data \<Rightarrow> bool" where
  "draw_matches fetcher prompt block_range b =
     (case block_number b of
        None \<Rightarrow> False
      | Some bn \<Rightarrow>
          fst block_range \<le> bn \<and> bn \<le> snd block_range \<and>
          list_ex (\<lambda>e. transaction_hash e = transaction_hash b)
            (get_pool_events_by_token_pairs fetcher (token_a prompt) (token_b prompt) bn bn (fee prompt)))"

definition draw_undecided :: "pool_data_fetcher \<Rightarrow> miner_prompt \<Rightarrow> int \<times> int \<Rightarrow> block_data \<Rightarrow> bool" where
  "draw_undecided fetcher prompt block_range b =
     (block_number b \<noteq> None \<and> \<not> draw_outside block_range b \<and> \<not> draw_matches fetcher prompt block_range b)"

section \<open>The validation step after polling\<close>

text \<open>
  The part of \<open>validate_step\<close> that follows the polling of the miners: \<open>uids\<close> are the
  keys of \<open>modules_info\<close> and \<open>miner_answers\<close> the replies, in the same order. What the
  step does to its collaborators is recorded in \<open>world\<close>: the answers handed to
  \<open>save_pool_data\<close> (which stores them and marks the token pair complete in the
  database), the arguments of every call of \<open>score_miners\<close>, and the votes on the ledger.

  \<open>miner_results\<close> is a \<open>zip\<close> object. It is never false, so the first early return
  cannot be taken, and it can be walked once: the comprehension that builds
  \<open>trust_miner_results\<close> consumes it, and \<open>score_miners\<close> receives it exhausted.
\<close>

record world =
  saved_pool_data :: "miner_answer list"
  score_calls :: "(int \<times> miner_answer option) list list"
  ledger :: "(int list \<times> int list) list"

definition validate_step ::
  "pool_data_fetcher \<Rightarrow> (nat \<Rightarrow> nat) \<Rightarrow> (string list \<Rightarrow> string list) \<Rightarrow> validator_settings
     \<Rightarrow> miner_prompt \<Rightarrow> int list \<Rightarrow> miner_answer option list \<Rightarrow> world
     \<Rightarrow> (error + unit) \<times> world" where
  "validate_step fetcher rng set_iter settings prompt uids miner_answers w =
     (let miner_results = zip uids miner_answers;
          hashes = overall_hashes miner_answers
      in if hashes = [] then (Inr (), w)
         else
           (case most_common_hash set_iter hashes of
              Inl e \<Rightarrow> (Inl e, w)
            | Inr h \<Rightarrow>
                (let trusted = trust_miner_results h miner_results;
                     exhausted = []
                 in case trusted of
                      [] \<Rightarrow> (Inl IndexError, w)
                    | (key, trust) # others \<Rightarrow>
                        (case fst (check_miner_answer fetcher rng prompt trust) of
                           Inl e \<Rightarrow> (Inl e, w)
                         | Inr False \<Rightarrow> (Inr (), w)
                         | Inr True \<Rightarrow>
                             (let w1 = w\<lparr>saved_pool_data := saved_pool_data w @ [trust]\<rparr>;
                                  w2 = w1\<lparr>score_calls := score_calls w1 @ [exhausted]\<rparr>
                              in case score_miners exhausted trust of
                                   Inl e \<Rightarrow> (Inl e, w2)
                                 | Inr score_dict \<Rightarrow>
                                     if score_dict = [] then (Inr (), w2)
                                     else
                                       (case set_weights settings score_dict (ledger w2) of
                                          Inl e \<Rightarrow> (Inl e, w2)
                                        | Inr l \<Rightarrow> (Inr (), w2\<lparr>ledger := l\<rparr>)))))))"

section \<open>Scenario inputs\<close>

text \<open>
  Concrete inputs on which the properties below are evaluated: an oracle whose block
  range is 100 to 200 and which knows one transaction, at block 150; four records (the
  known transaction, an unknown one inside the range, one outside the range, one without
  a block number); replies
  built from them; the world before the step; and five replies of which four share the
  hash \<open>H1\<close>.
\<close>

definition scenario_fetcher :: pool_data_fetcher where
  "scenario_fetcher =
     \<lparr>get_block_number_range = (\<lambda>s e. (100, 200)),
      get_pool_events_by_token_pairs =
        (\<lambda>a b first last f.
           if first = 150 then [\<lparr>block_number = Some 150, transaction_hash = Some ''0xaa''\<rparr>] else [])\<rparr>"

definition scenario_prompt :: miner_prompt where
  "scenario_prompt =
     \<lparr>token_a = ''A'', token_b = ''B'', fee = 3000,
      start_datetime = ''2021-05-04 00:00:00'', end_datetime = ''2021-05-05 00:00:00''\<rparr>"

definition record_match :: block_data where
  "record_match = \<lparr>block_number = Some 150, transaction_hash = Some ''0xaa''\<rparr>"

definition record_unknown :: block_data where
  "record_unknown = \<lparr>block_number = Some 160, transaction_hash = Some ''0xbb''\<rparr>"

definition record_outside :: block_data where
  "record_outside = \<lparr>block_number = Some 999, transaction_hash = Some ''0xcc''\<rparr>"

definition record_no_block :: block_data where
  "record_no_block = \<lparr>block_number = None, transaction_hash = Some ''0xaa''\<rparr>"

definition scenario_answer :: "block_data list \<Rightarrow> string \<Rightarrow> real \<Rightarrow> miner_answer" where
  "scenario_answer records h t = \<lparr>data = Some records, overall_data_hash = h, process_time = t\<rparr>"

definition empty_world :: world where
  "empty_world = \<lparr>saved_pool_data = [], score_calls = [], ledger = []\<rparr>"

definition scenario_a_answers :: "miner_answer option list" where
  "scenario_a_answers =
     [Some (scenario_answer [record_match] ''H1'' (1 / 10)),
      Some (scenario_answer [record_match] ''H1'' (2 / 10)),
      Some (scenario_answer [record_unknown] ''H2'' (1 / 10)),
      Some (scenario_answer [record_match] ''H1'' (3 / 10)),
      Some (scenario_answer [record_match] ''H1'' (1 / 10))]"

section \<open>Properties of the dictionary and slice operations\<close>

lemma length_update_le: "length (AList.update k v al) \<le> Suc (length al)"
  by (induction al) auto

lemma fold_update_distinct:
  "distinct (map fst (acc @ kvs)) \<Longrightarrow> fold (\<lambda>(k, v). AList.update k v) kvs acc = acc @ kvs"
proof (induction kvs arbitrary: acc)
  case Nil
  then show ?case by simp
next
  case (Cons p kvs)
  obtain k v where p: "p = (k, v)" by (cases p)
  from Cons.prems p have nin: "k \<notin> fst ` set acc" by auto
  have upd: "AList.update k v acc = acc @ [(k, v)]"
    using nin by (induction acc) auto
  from Cons.prems p have "distinct (map fst ((acc @ [(k, v)]) @ kvs))" by simp
  from Cons.IH[OF this] show ?case using p upd by simp
qed

lemma dict_of_distinct: "distinct (map fst kvs) \<Longrightarrow> dict_of kvs = kvs"
  using fold_update_distinct[of "[]" kvs] by (simp add: dict_of_def)

lemma length_fold_update:
  "length (fold (\<lambda>(k, v). AList.update k v) kvs acc) \<le> length acc + length kvs"
proof (induction kvs arbitrary: acc)
  case Nil
  then show ?case by simp
next
  case (Cons p kvs)
  obtain k v where p: "p = (k, v)" by (cases p)
  have "length (AList.update k v acc) \<le> Suc (length acc)"
    by (rule length_update_le)
  with Cons.IH[of "AList.update k v acc"] p show ?case by simp
qed

lemma length_dict_of: "length (dict_of kvs) \<le> length kvs"
  using length_fold_update[of kvs "[]"] by (simp add: dict_of_def)

lemma set_update_subset: "set (AList.update k v al) \<subseteq> insert (k, v) (set al)"
  by (induction al) auto

lemma set_fold_update:
  "set (fold (\<lambda>(k, v). AList.update k v) kvs acc) \<subseteq> set acc \<union> set kvs"
proof (induction kvs arbitrary: acc)
  case Nil
  then show ?case by simp
next
  case (Cons p kvs)
  obtain k v where p: "p = (k, v)" by (cases p)
  from Cons.IH[of "AList.update k v acc"] set_update_subset[of k v acc] p
  show ?case by auto
qed

lemma set_dict_of: "set (dict_of kvs) \<subseteq> set kvs"
  using set_fold_update[of kvs "[]"] by (simp add: dict_of_def)

lemma length_py_slice_to: "0 \<le> n \<Longrightarrow> int (length (py_slice_to n xs)) \<le> n"
  by (simp add: py_slice_to_def)

lemma set_py_slice_to: "set (py_slice_to n xs) \<subseteq> set xs"
  by (auto simp: py_slice_to_def dest: in_set_takeD)

lemma length_cut: "0 \<le> n \<Longrightarrow> int (length (cut_to_max_allowed_weights sd n)) \<le> n"
proof -
  assume n: "0 \<le> n"
  have "length (cut_to_max_allowed_weights sd n) \<le> length (py_slice_to n (sort_key (\<lambda>x. - snd x) sd))"
    by (simp add: cut_to_max_allowed_weights_def length_dict_of)
  with length_py_slice_to[OF n, of "sort_key (\<lambda>x. - snd x) sd"] show ?thesis by linarith
qed

lemma set_cut: "set (cut_to_max_allowed_weights sd n) \<subseteq> set sd"
proof -
  have "set (cut_to_max_allowed_weights sd n) \<subseteq> set (py_slice_to n (sort_key (\<lambda>x. - snd x) sd))"
    by (simp add: cut_to_max_allowed_weights_def set_dict_of)
  also have "\<dots> \<subseteq> set (sort_key (\<lambda>x. - snd x) sd)" by (rule set_py_slice_to)
  finally show ?thesis by simp
qed

lemma weigh_loop_length:
  "weigh_loop scores sd acc = Inr ws \<Longrightarrow> length ws \<le> length acc + length sd"
proof (induction sd arbitrary: acc)
  case Nil
  then show ?case by simp
next
  case (Cons p sd)
  obtain u s where p: "p = (u, s)" by (cases p)
  let ?acc = "AList.update u (py_int (s * 1000 / scores)) acc"
  from Cons.prems p have "weigh_loop scores sd ?acc = Inr ws"
    by (simp split: if_splits)
  from Cons.IH[OF this] have "length ws \<le> length ?acc + length sd" .
  moreover have "length ?acc \<le> Suc (length acc)" by (rule length_update_le)
  ultimately show ?case by simp
qed

lemma weigh_loop_values:
  "weigh_loop scores sd acc = Inr ws \<Longrightarrow> (u, w) \<in> set ws \<Longrightarrow>
     (u, w) \<in> set acc \<or> (\<exists>s. (u, s) \<in> set sd \<and> w = py_int (s * 1000 / scores))"
proof (induction sd arbitrary: acc)
  case Nil
  then show ?case by simp
next
  case (Cons p sd)
  obtain u' s' where p: "p = (u', s')" by (cases p)
  let ?acc = "AList.update u' (py_int (s' * 1000 / scores)) acc"
  from Cons.prems p have "weigh_loop scores sd ?acc = Inr ws"
    by (simp split: if_splits)
  from Cons.IH[OF this Cons.prems(2)] set_update_subset[of u' "py_int (s' * 1000 / scores)" acc] p
  show ?case by auto
qed

lemma py_int_nonneg: "0 \<le> x \<Longrightarrow> 0 \<le> py_int x"
  by (simp add: py_int_def)

lemma weighted_scores_bounded:
  assumes n: "0 \<le> n" and nonneg: "\<forall>(u, s)\<in>set sd. 0 \<le> s"
    and res: "weighted_scores n sd = Inr ws"
  shows "int (length ws) \<le> n \<and> (\<forall>(u, w)\<in>set ws. 0 < w)"
proof -
  let ?cut = "cut_to_max_allowed_weights sd n"
  let ?scores = "sum_list (map snd ?cut)"
  from res obtain ws0 where loop: "weigh_loop ?scores ?cut [] = Inr ws0"
    and ws: "ws = filter (\<lambda>(k, v). v \<noteq> 0) ws0"
    by (auto simp: weighted_scores_def Let_def split: sum.splits)
  have "length ws \<le> length ws0" using ws by simp
  also have "\<dots> \<le> length ?cut" using weigh_loop_length[OF loop] by simp
  finally have len: "int (length ws) \<le> n" using length_cut[OF n, of sd] by linarith
  have cut_nonneg: "0 \<le> s" if "(u, s) \<in> set ?cut" for u s
    using that set_cut[of sd n] nonneg by auto
  have sum_nonneg: "0 \<le> ?scores"
    by (rule sum_list_nonneg) (use cut_nonneg in auto)
  have pos: "0 < w" if "(u, w) \<in> set ws" for u w
  proof -
    from that ws have in0: "(u, w) \<in> set ws0" and nz: "w \<noteq> 0" by auto
    from weigh_loop_values[OF loop in0] obtain s where s: "(u, s) \<in> set ?cut"
      and w: "w = py_int (s * 1000 / ?scores)" by auto
    have "0 \<le> s * 1000 / ?scores" using cut_nonneg[OF s] sum_nonneg by simp
    then have "0 \<le> w" unfolding w by (rule py_int_nonneg)
    with nz show ?thesis by simp
  qed
  from len pos show ?thesis by auto
qed

lemma distinct_keys_sort_key:
  "distinct (map fst (sort_key f xs)) = distinct (map fst xs)"
proof -
  have "mset (map fst (sort_key f xs)) = mset (map fst xs)"
    by simp
  then show ?thesis by (rule mset_eq_imp_distinct_iff)
qed

lemma distinct_keys_py_slice_to:
  "distinct (map fst xs) \<Longrightarrow> distinct (map fst (py_slice_to n xs))"
  by (simp add: py_slice_to_def flip: take_map)

lemma cut_distinct:
  assumes "distinct (map fst sd)"
  shows "cut_to_max_allowed_weights sd n = py_slice_to n (sort_key (\<lambda>x. - snd x) sd)"
proof -
  have "distinct (map fst (py_slice_to n (sort_key (\<lambda>x. - snd x) sd)))"
    using assms by (intro distinct_keys_py_slice_to) (simp add: distinct_keys_sort_key)
  then show ?thesis by (simp add: cut_to_max_allowed_weights_def dict_of_distinct)
qed

lemma weigh_loop_distinct:
  "scores \<noteq> 0 \<Longrightarrow> distinct (map fst acc @ map fst sd) \<Longrightarrow>
   weigh_loop scores sd acc = Inr (acc @ map (\<lambda>(u, s). (u, py_int (s * 1000 / scores))) sd)"
proof (induction sd arbitrary: acc)
  case Nil
  then show ?case by simp
next
  case (Cons p sd)
  obtain u s where p: "p = (u, s)" by (cases p)
  let ?w = "py_int (s * 1000 / scores)"
  from Cons.prems p have nin: "u \<notin> fst ` set acc" by auto
  have upd: "AList.update u ?w acc = acc @ [(u, ?w)]"
    using nin by (induction acc) auto
  from Cons.prems p have "distinct (map fst (acc @ [(u, ?w)]) @ map fst sd)" by simp
  from Cons.IH[OF Cons.prems(1) this] show ?case using p upd Cons.prems(1) by simp
qed

lemma py_int_le: "0 \<le> x \<Longrightarrow> real_of_int (py_int x) \<le> x"
  by (simp add: py_int_def)

lemma sum_weights_le:
  assumes "\<forall>(u, s)\<in>set xs. 0 \<le> s" and "0 < S"
  shows "real_of_int (sum_list (map (\<lambda>(u, s). py_int (s * 1000 / S)) xs))
           \<le> sum_list (map snd xs) * 1000 / S"
  using assms(1)
proof (induction xs)
  case Nil
  then show ?case by simp
next
  case (Cons p xs)
  obtain u s where p: "p = (u, s)" by (cases p)
  from Cons.prems p have s: "0 \<le> s" by simp
  have "0 \<le> s * 1000 / S" using s assms(2) by simp
  then have "real_of_int (py_int (s * 1000 / S)) \<le> s * 1000 / S" by (rule py_int_le)
  moreover have "real_of_int (sum_list (map (\<lambda>(u, s). py_int (s * 1000 / S)) xs))
           \<le> sum_list (map snd xs) * 1000 / S"
    using Cons by simp
  ultimately show ?case using p by (simp add: add_divide_distrib distrib_right)
qed

lemma sum_filter_nonzero:
  "sum_list (map snd (filter (\<lambda>(k, v). v \<noteq> 0) ws)) = sum_list (map snd (ws :: (int \<times> int) list))"
  by (induction ws) auto

lemma hd_sort_key_max:
  fixes xs :: "(int \<times> real) list"
  assumes "x \<in> set xs"
  shows "snd x \<le> snd (hd (sort_key (\<lambda>x. - snd x) xs))"
proof -
  let ?ys = "sort_key (\<lambda>x. - snd x) xs"
  have srt: "sorted (map (\<lambda>x. - snd x) ?ys)" by (rule sorted_sort_key)
  from assms have ne: "?ys \<noteq> []" by (metis empty_iff list.set(1) set_sort)
  then obtain y ys where ys: "?ys = y # ys" by (cases ?ys) auto
  from assms have "x \<in> set ?ys" by simp
  with srt ys have "- snd y \<le> - snd x" by auto
  with ys show ?thesis by simp
qed

lemma cut_sum_pos:
  assumes dist: "distinct (map fst sd)" and nonneg: "\<forall>(u, s)\<in>set sd. 0 \<le> s"
    and pos: "0 < sum_list (map snd sd)"
    and ne: "cut_to_max_allowed_weights sd n \<noteq> []"
  shows "0 < sum_list (map snd (cut_to_max_allowed_weights sd n))"
proof -
  let ?ys = "sort_key (\<lambda>x. - snd x) sd"
  let ?cut = "cut_to_max_allowed_weights sd n"
  have cut: "?cut = py_slice_to n ?ys" by (rule cut_distinct[OF dist])
  from ne cut obtain k where k: "?cut = take k ?ys" and k0: "0 < k"
    by (cases "0 \<le> n") (auto simp: py_slice_to_def intro: gr0I)
  from ne k have ysne: "?ys \<noteq> []" by auto
  with k k0 have hd_in: "hd ?ys \<in> set ?cut"
    by (cases ?ys; cases k) auto
  have "\<exists>x\<in>set sd. 0 < snd x"
  proof (rule ccontr)
    assume "\<not> ?thesis"
    with nonneg have "\<forall>x\<in>set sd. snd x = 0" by fastforce
    then have "sum_list (map snd sd) = 0" by (induction sd) auto
    with pos show False by simp
  qed
  then obtain x where x: "x \<in> set sd" "0 < snd x" by auto
  from hd_sort_key_max[OF x(1)] x(2) have hdpos: "0 < snd (hd ?ys)" by linarith
  have cut_nonneg: "\<forall>y\<in>set (map snd ?cut). 0 \<le> y"
    using set_cut[of sd n] nonneg by fastforce
  have "snd (hd ?ys) \<le> sum_list (map snd ?cut)"
    by (rule member_le_sum_list) (use hd_in cut_nonneg in auto)
  with hdpos show ?thesis by linarith
qed

lemma weighted_scores_sum:
  assumes dist: "distinct (map fst sd)" and rng: "\<forall>(u, s)\<in>set sd. 0 \<le> s \<and> s \<le> 1"
    and pos: "0 < sum_list (map snd sd)"
  shows "\<exists>ws. weighted_scores n sd = Inr ws \<and> sum_list (map snd ws) \<le> 1000"
proof -
  let ?cut = "cut_to_max_allowed_weights sd n"
  let ?S = "sum_list (map snd ?cut)"
  from rng have nonneg: "\<forall>(u, s)\<in>set sd. 0 \<le> s" by auto
  show ?thesis
  proof (cases "?cut = []")
    case True
    then show ?thesis by (simp add: weighted_scores_def)
  next
    case False
    from cut_sum_pos[OF dist nonneg pos False] have S: "0 < ?S" .
    have dcut: "distinct (map fst ([] :: (int \<times> int) list) @ map fst ?cut)"
      using dist by (simp add: cut_distinct distinct_keys_py_slice_to distinct_keys_sort_key)
    let ?ws0 = "map (\<lambda>(u, s). (u, py_int (s * 1000 / ?S))) ?cut"
    from S have "?S \<noteq> 0" by simp
    from weigh_loop_distinct[OF this dcut]
    have loop: "weigh_loop ?S ?cut [] = Inr ?ws0" by simp
    then have res: "weighted_scores n sd = Inr (filter (\<lambda>(k, v). v \<noteq> 0) ?ws0)"
      by (simp add: weighted_scores_def Let_def)
    have cut_nonneg: "\<forall>(u, s)\<in>set ?cut. 0 \<le> s"
      using set_cut[of sd n] nonneg by auto
    have eq: "map snd ?ws0 = map (\<lambda>(u, s). py_int (s * 1000 / ?S)) ?cut"
      by (simp add: case_prod_beta)
    have "real_of_int (sum_list (map snd ?ws0)) \<le> ?S * 1000 / ?S"
      unfolding eq by (rule sum_weights_le[OF cut_nonneg S])
    also have "\<dots> = 1000" using S by simp
    finally have "sum_list (map snd ?ws0) \<le> 1000" by linarith
    with res show ?thesis by (simp add: sum_filter_nonzero)
  qed
qed

lemma cut_idem:
  assumes dist: "distinct (map fst sd)" and n: "0 \<le> n"
  shows "cut_to_max_allowed_weights (cut_to_max_allowed_weights sd n) n = cut_to_max_allowed_weights sd n"
proof -
  let ?f = "\<lambda>x::int \<times> real. - snd x"
  let ?ys = "sort_key ?f sd"
  have c1: "cut_to_max_allowed_weights sd n = take (nat n) ?ys"
    using n by (simp add: cut_distinct[OF dist] py_slice_to_def)
  have d1: "distinct (map fst (take (nat n) ?ys))"
    using dist by (simp add: distinct_keys_sort_key flip: take_map)
  have "sorted (map ?f (take (nat n) ?ys))"
    by (simp add: sorted_wrt_take flip: take_map)
  then have s2: "sort_key ?f (take (nat n) ?ys) = take (nat n) ?ys"
    by (rule sort_key_id_if_sorted)
  show ?thesis
    unfolding c1 using n by (simp add: cut_distinct[OF d1] py_slice_to_def s2)
qed


section \<open>The weight allocation\<close>

text \<open>
  Claim C5 says that for every score mapping and every \<open>max_count\<close> the emitted
  allocation has at most \<open>max_count\<close> entries, all of them non-negative integers, none
  of them zero. Two inputs show that it does not hold for every mapping and every
  bound: a negative score is normalised to a negative weight, and a negative
  \<open>max_allowed_weights\<close> makes the slice drop elements from the end, which leaves more
  entries than the bound.
\<close>

theorem set_weights_allocation_counterexample:
  "set_weights \<lparr>max_allowed_weights = 2\<rparr> [(1, - 1), (2, 3)] [] = Inr [([2, 1], [1500, - 500])]
   \<and> set_weights \<lparr>max_allowed_weights = - 1\<rparr> [(1, 1 / 2), (2, 1 / 2)] [] = Inr [([1], [1000])]
   \<and> \<not> int (length [1000 :: int]) \<le> max_allowed_weights \<lparr>max_allowed_weights = - 1\<rparr>"
  by (simp add: set_weights_def weighted_scores_def cut_to_max_allowed_weights_def
      py_slice_to_def dict_of_def py_int_def)

text \<open>
  Claim C5, amended: for every score mapping whose scores are not negative and every
  \<open>max_allowed_weights\<close> that is not negative, a vote that \<open>set_weights\<close> sends has at
  most \<open>max_allowed_weights\<close> entries, one weight for each uid, and every weight is a
  positive integer: none is negative and none is zero.
\<close>

theorem set_weights_allocation_bounded:
  assumes "0 \<le> max_allowed_weights settings"
    and "\<forall>(u, s)\<in>set score_dict. 0 \<le> s"
    and "set_weights settings score_dict l = Inr l'"
  shows "\<exists>uids ws. l' = l @ [(uids, ws)] \<and> length uids = length ws
           \<and> int (length ws) \<le> max_allowed_weights settings \<and> (\<forall>w\<in>set ws. 0 < w)"
proof -
  from assms(3) obtain kvs where kvs: "weighted_scores (max_allowed_weights settings) score_dict = Inr kvs"
    and l': "l' = l @ [(map fst kvs, map snd kvs)]"
    by (auto simp: set_weights_def split: sum.splits)
  from weighted_scores_bounded[OF assms(1,2) kvs]
  have "int (length kvs) \<le> max_allowed_weights settings" and "\<forall>(u, w)\<in>set kvs. 0 < w"
    by auto
  then have "int (length (map snd kvs)) \<le> max_allowed_weights settings"
    and "\<forall>w\<in>set (map snd kvs). 0 < w"
    by auto
  with l' show ?thesis by auto
qed

theorem set_weights_allocation_bounded_witness:
  "(0 :: int) \<le> max_allowed_weights \<lparr>max_allowed_weights = 2\<rparr>
   \<and> list_all (\<lambda>(u, s). 0 \<le> s) [(1 :: int, 9 / 10 :: real), (2, 3 / 10), (3, 1 / 20)]
   \<and> set_weights \<lparr>max_allowed_weights = 2\<rparr> [(1, 9 / 10), (2, 3 / 10), (3, 1 / 20)] []
       = Inr [([1, 2], [750, 250])]
   \<and> (\<exists>uids ws. [([1, 2], [750, 250 :: int])] = [] @ [(uids :: int list, ws)]
         \<and> length uids = length ws \<and> int (length ws) \<le> 2 \<and> (\<forall>w\<in>set ws. 0 < w))"
proof -
  have run: "set_weights \<lparr>max_allowed_weights = 2\<rparr> [(1, 9 / 10), (2, 3 / 10), (3, 1 / 20)] []
       = Inr [([1, 2], [750, 250])]"
    by (simp add: set_weights_def weighted_scores_def cut_to_max_allowed_weights_def
        py_slice_to_def dict_of_def py_int_def)
  have "\<exists>uids ws. [([1, 2], [750, 250 :: int])] = [] @ [(uids :: int list, ws)]
         \<and> length uids = length ws
         \<and> int (length ws) \<le> max_allowed_weights \<lparr>max_allowed_weights = 2\<rparr>
         \<and> (\<forall>w\<in>set ws. 0 < w)"
    by (rule set_weights_allocation_bounded[OF _ _ run]) simp_all
  with run show ?thesis by simp
qed

text \<open>
  Claim C9: the allocation is a function of the score mapping alone. When
  \<open>set_weights\<close> has sent a vote for a score mapping, running it again on the same
  mapping, on the ledger that already holds the first vote, sends the same vote a second
  time; and the vote is the same from any ledger.
\<close>

theorem set_weights_idempotent:
  assumes "set_weights settings score_dict l = Inr l1"
  shows "\<exists>vote. l1 = l @ [vote]
           \<and> set_weights settings score_dict l1 = Inr (l @ [vote, vote])
           \<and> (\<forall>l2. set_weights settings score_dict l2 = Inr (l2 @ [vote]))"
  using assms by (auto simp: set_weights_def split: sum.splits)

theorem set_weights_idempotent_witness:
  "set_weights \<lparr>max_allowed_weights = 2\<rparr> [(1, 9 / 10), (2, 3 / 10), (3, 1 / 20)] []
       = Inr [([1, 2], [750, 250])]
   \<and> set_weights \<lparr>max_allowed_weights = 2\<rparr> [(1, 9 / 10), (2, 3 / 10), (3, 1 / 20)]
         [([1, 2], [750, 250])]
       = Inr [([1, 2], [750, 250]), ([1, 2], [750, 250])]"
proof -
  have run: "set_weights \<lparr>max_allowed_weights = 2\<rparr> [(1, 9 / 10), (2, 3 / 10), (3, 1 / 20)] []
       = Inr [([1, 2], [750, 250])]"
    by (simp add: set_weights_def weighted_scores_def cut_to_max_allowed_weights_def
        py_slice_to_def dict_of_def py_int_def)
  from set_weights_idempotent[OF run] run show ?thesis by auto
qed

text \<open>
  Claim C10: for every score mapping (a dictionary, so its uids are distinct) whose
  scores lie between 0 and 1 and whose sum is positive, \<open>set_weights\<close> sends a vote and
  the weights of the vote sum to at most 1000.
\<close>

theorem set_weights_sum_le_1000:
  assumes "distinct (map fst score_dict)"
    and "\<forall>(u, s)\<in>set score_dict. 0 \<le> s \<and> s \<le> 1"
    and "0 < sum_list (map snd score_dict)"
  shows "\<exists>uids ws. set_weights settings score_dict l = Inr (l @ [(uids, ws)])
           \<and> sum_list ws \<le> 1000"
proof -
  from weighted_scores_sum[OF assms, of "max_allowed_weights settings"]
  obtain kvs where "weighted_scores (max_allowed_weights settings) score_dict = Inr kvs"
    and "sum_list (map snd kvs) \<le> 1000"
    by auto
  then show ?thesis by (simp add: set_weights_def)
qed

theorem set_weights_sum_le_1000_witness:
  "distinct (map fst [(1 :: int, 1 / 3 :: real), (2, 1 / 3), (3, 1 / 3)])
   \<and> list_all (\<lambda>(u, s). 0 \<le> s \<and> s \<le> 1) [(1 :: int, 1 / 3 :: real), (2, 1 / 3), (3, 1 / 3)]
   \<and> 0 < sum_list (map snd [(1 :: int, 1 / 3 :: real), (2, 1 / 3), (3, 1 / 3)])
   \<and> set_weights \<lparr>max_allowed_weights = 420\<rparr> [(1, 1 / 3), (2, 1 / 3), (3, 1 / 3)] []
       = Inr [([1, 2, 3], [333, 333, 333])]
   \<and> sum_list [333, 333, 333 :: int] \<le> 1000"
proof -
  have "\<exists>uids ws. set_weights \<lparr>max_allowed_weights = 420\<rparr> [(1, 1 / 3), (2, 1 / 3), (3, 1 / 3)] []
          = Inr ([] @ [(uids, ws)]) \<and> sum_list ws \<le> 1000"
    by (rule set_weights_sum_le_1000) simp_all
  moreover have "set_weights \<lparr>max_allowed_weights = 420\<rparr> [(1, 1 / 3), (2, 1 / 3), (3, 1 / 3)] []
       = Inr [([1, 2, 3], [333, 333, 333])]"
    by (simp add: set_weights_def weighted_scores_def cut_to_max_allowed_weights_def
        py_slice_to_def dict_of_def py_int_def)
  ultimately show ?thesis by simp
qed

section \<open>The spot check\<close>

text \<open>One iteration of the loop, in terms of what the draw is.\<close>

lemma check_loop_Suc:
  assumes "d \<noteq> []"
  shows "check_loop fetcher prompt r d rng (Suc n) k =
     (if block_number (random_choice rng k d) = None then (Inr False, Suc k)
      else if draw_outside r (random_choice rng k d) then (Inr False, Suc k)
      else if draw_matches fetcher prompt r (random_choice rng k d) then (Inr True, Suc k)
      else check_loop fetcher prompt r d rng n (Suc k))"
proof (cases "block_number (random_choice rng k d)")
  case None
  with assms show ?thesis by simp
next
  case (Some bn)
  show ?thesis
  proof (cases "bn < fst r \<or> snd r < bn")
    case True
    with Some assms show ?thesis by (simp add: draw_outside_def)
  next
    case False
    with Some assms show ?thesis by (simp add: draw_outside_def draw_matches_def)
  qed
qed

declare check_loop.simps(2) [simp del]

lemma check_loop_draws: "snd (check_loop fetcher prompt r d rng n k) \<le> k + n"
proof (induction n arbitrary: k)
  case 0
  then show ?case by simp
next
  case (Suc n)
  have ih: "snd (check_loop fetcher prompt r d rng n (Suc k)) \<le> Suc k + n" by (rule Suc.IH)
  show ?case
  proof (cases "d = []")
    case True
    then show ?thesis by (simp add: check_loop.simps(2))
  next
    case False
    from ih show ?thesis by (simp add: check_loop_Suc[OF False])
  qed
qed

lemma check_loop_undecided_step:
  assumes "d \<noteq> []" and "draw_undecided fetcher prompt r (random_choice rng k d)"
  shows "check_loop fetcher prompt r d rng (Suc n) k = check_loop fetcher prompt r d rng n (Suc k)"
  using assms(2) by (auto simp: check_loop_Suc[OF assms(1)] draw_undecided_def)

lemma check_loop_outside_step:
  assumes "d \<noteq> []" and "draw_outside r (random_choice rng k d)"
  shows "check_loop fetcher prompt r d rng (Suc n) k = (Inr False, Suc k)"
  using assms(2) by (simp add: check_loop_Suc[OF assms(1)])

lemma draw_matches_not_outside:
  "draw_matches fetcher prompt r b \<Longrightarrow> \<not> draw_outside r b \<and> block_number b \<noteq> None"
  by (cases "block_number b") (auto simp: draw_matches_def draw_outside_def)

lemma check_loop_matches_step:
  assumes "d \<noteq> []" and "draw_matches fetcher prompt r (random_choice rng k d)"
  shows "check_loop fetcher prompt r d rng (Suc n) k = (Inr True, Suc k)"
  using assms(2) draw_matches_not_outside[OF assms(2)]
  by (simp add: check_loop_Suc[OF assms(1)])

lemma check_loop_skip:
  assumes "d \<noteq> []" and "\<forall>j<i. draw_undecided fetcher prompt r (random_choice rng (k + j) d)"
  shows "check_loop fetcher prompt r d rng (i + n) k = check_loop fetcher prompt r d rng n (k + i)"
  using assms(2)
proof (induction i arbitrary: k)
  case 0
  then show ?case by simp
next
  case (Suc i)
  have first: "draw_undecided fetcher prompt r (random_choice rng k d)"
    using Suc.prems[rule_format, of 0] by simp
  have rest: "\<forall>j<i. draw_undecided fetcher prompt r (random_choice rng (Suc k + j) d)"
  proof (intro allI impI)
    fix j assume "j < i"
    then have "Suc j < Suc i" by simp
    then have "draw_undecided fetcher prompt r (random_choice rng (k + Suc j) d)"
      by (rule Suc.prems[rule_format])
    then show "draw_undecided fetcher prompt r (random_choice rng (Suc k + j) d)" by simp
  qed
  have "check_loop fetcher prompt r d rng (Suc (i + n)) k = check_loop fetcher prompt r d rng (i + n) (Suc k)"
    by (rule check_loop_undecided_step[OF assms(1) first])
  also have "\<dots> = check_loop fetcher prompt r d rng n (Suc k + i)"
    by (rule Suc.IH[OF rest])
  finally show ?case by simp
qed

lemma check_loop_first_outside:
  assumes d: "d \<noteq> []" and i: "i < m"
    and und: "\<forall>j<i. draw_undecided fetcher prompt r (random_choice rng j d)"
    and out: "draw_outside r (random_choice rng i d)"
  shows "check_loop fetcher prompt r d rng m 0 = (Inr False, Suc i)"
proof -
  define n where "n = m - Suc i"
  have m: "m = i + Suc n" using i by (simp add: n_def)
  from und have und0: "\<forall>j<i. draw_undecided fetcher prompt r (random_choice rng (0 + j) d)" by simp
  have "check_loop fetcher prompt r d rng (i + Suc n) 0 = check_loop fetcher prompt r d rng (Suc n) (0 + i)"
    by (rule check_loop_skip[OF d und0])
  also have "\<dots> = (Inr False, Suc i)"
    using check_loop_outside_step[OF d out, of fetcher prompt n] by simp
  finally show ?thesis by (simp add: m)
qed

lemma check_loop_first_match:
  assumes d: "d \<noteq> []" and i: "i < m"
    and und: "\<forall>j<i. draw_undecided fetcher prompt r (random_choice rng j d)"
    and mat: "draw_matches fetcher prompt r (random_choice rng i d)"
  shows "check_loop fetcher prompt r d rng m 0 = (Inr True, Suc i)"
proof -
  define n where "n = m - Suc i"
  have m: "m = i + Suc n" using i by (simp add: n_def)
  from und have und0: "\<forall>j<i. draw_undecided fetcher prompt r (random_choice rng (0 + j) d)" by simp
  have "check_loop fetcher prompt r d rng (i + Suc n) 0 = check_loop fetcher prompt r d rng (Suc n) (0 + i)"
    by (rule check_loop_skip[OF d und0])
  also have "\<dots> = (Inr True, Suc i)"
    using check_loop_matches_step[OF d mat, of n] by simp
  finally show ?thesis by (simp add: m)
qed

lemma check_loop_missing_step:
  assumes "d \<noteq> []" and "block_number (random_choice rng k d) = None"
  shows "check_loop fetcher prompt r d rng (Suc n) k = (Inr False, Suc k)"
  using assms(2) by (simp add: check_loop_Suc[OF assms(1)])

lemma check_loop_first_missing:
  assumes d: "d \<noteq> []" and i: "i < m"
    and und: "\<forall>j<i. draw_undecided fetcher prompt r (random_choice rng j d)"
    and mis: "block_number (random_choice rng i d) = None"
  shows "check_loop fetcher prompt r d rng m 0 = (Inr False, Suc i)"
proof -
  define n where "n = m - Suc i"
  have m: "m = i + Suc n" using i by (simp add: n_def)
  from und have und0: "\<forall>j<i. draw_undecided fetcher prompt r (random_choice rng (0 + j) d)" by simp
  have "check_loop fetcher prompt r d rng (i + Suc n) 0 = check_loop fetcher prompt r d rng (Suc n) (0 + i)"
    by (rule check_loop_skip[OF d und0])
  also have "\<dots> = (Inr False, Suc i)"
    using check_loop_missing_step[OF d mis, of fetcher prompt r n] by simp
  finally show ?thesis by (simp add: m)
qed

lemma check_loop_no_match:
  assumes d: "d \<noteq> []"
    and und: "\<forall>j<m. draw_undecided fetcher prompt r (random_choice rng j d)"
  shows "check_loop fetcher prompt r d rng m 0 = (Inr False, m)"
proof -
  from und have und0: "\<forall>j<m. draw_undecided fetcher prompt r (random_choice rng (0 + j) d)" by simp
  have "check_loop fetcher prompt r d rng (m + 0) 0 = check_loop fetcher prompt r d rng 0 (0 + m)"
    by (rule check_loop_skip[OF d und0])
  also have "\<dots> = (Inr False, m)" by simp
  finally show ?thesis by simp
qed

text \<open>
  On an empty payload \<open>random.choice\<close> raises before any record is drawn: the outcome is
  the exception, not a verdict.
\<close>

lemma check_miner_answer_empty_payload:
  "data trust = Some [] \<Longrightarrow> check_miner_answer fetcher rng prompt trust = (Inl IndexError, 0)"
  by (simp add: check_miner_answer_def ANSWER_CHECK_COUNT_def check_loop.simps(2)
      numeral_eq_Suc)

section \<open>The validation step\<close>

lemma overall_hashes_all_None:
  "\<forall>r\<in>set miner_answers. r = None \<Longrightarrow> overall_hashes miner_answers = []"
  by (induction miner_answers) (auto simp: overall_hashes_def)

lemma validate_step_rejected:
  assumes "fst (check_miner_answer fetcher rng prompt trust) = Inr False"
    and "most_common_hash set_iter (overall_hashes miner_answers) = Inr h"
    and "trust_miner_results h (zip uids miner_answers) = (key, trust) # others"
  shows "validate_step fetcher rng set_iter settings prompt uids miner_answers w = (Inr (), w)"
  using assms by (simp add: validate_step_def Let_def)

lemma validate_step_check_raises:
  assumes "fst (check_miner_answer fetcher rng prompt trust) = Inl e"
    and "overall_hashes miner_answers \<noteq> []"
    and "most_common_hash set_iter (overall_hashes miner_answers) = Inr h"
    and "trust_miner_results h (zip uids miner_answers) = (key, trust) # others"
  shows "validate_step fetcher rng set_iter settings prompt uids miner_answers w = (Inl e, w)"
  using assms by (simp add: validate_step_def Let_def)

lemma score_miners_exhausted: "score_miners [] trust = Inl ValueError"
  by (simp add: score_miners_def process_time_score_def dict_of_def py_max_def)

text \<open>
  The step hands the exhausted \<open>zip\<close> object to \<open>score_miners\<close>, whose \<open>max\<close> then
  raises on the empty dictionary of process times: an accepted consensus is saved, the
  step ends with \<open>ValueError\<close>, and no run of the step adds a vote to the ledger.
\<close>

lemma validate_step_accepted:
  assumes "fst (check_miner_answer fetcher rng prompt trust) = Inr True"
    and "overall_hashes miner_answers \<noteq> []"
    and "most_common_hash set_iter (overall_hashes miner_answers) = Inr h"
    and "trust_miner_results h (zip uids miner_answers) = (key, trust) # others"
  shows "validate_step fetcher rng set_iter settings prompt uids miner_answers w
     = (Inl ValueError,
        w\<lparr>saved_pool_data := saved_pool_data w @ [trust], score_calls := score_calls w @ [[]]\<rparr>)"
  using assms by (simp add: validate_step_def Let_def score_miners_exhausted)

lemma validate_step_never_votes:
  "ledger (snd (validate_step fetcher rng set_iter settings prompt uids miner_answers w)) = ledger w"
  by (simp add: validate_step_def Let_def score_miners_exhausted
      split: sum.splits list.splits bool.splits prod.splits)

lemmas scenario_defs = scenario_fetcher_def scenario_prompt_def record_match_def record_unknown_def
  record_outside_def record_no_block_def scenario_answer_def random_choice_def draw_outside_def draw_matches_def
  draw_undecided_def ANSWER_CHECK_COUNT_def

text \<open>
  What the spot check does: it makes at most \<open>ANSWER_CHECK_COUNT\<close> = 10 draws. With a
  payload that is not empty: when the draws before draw \<open>i\<close> were all undecided and
  draw \<open>i\<close> (one of the ten) lies outside the block range of the oracle, the answer is
  rejected at once, after \<open>i + 1\<close> draws; when draw \<open>i\<close> is found in the oracle's
  events, the answer is accepted at once, after \<open>i + 1\<close> draws; when all ten draws
  are undecided the answer is rejected after ten draws; and when draw \<open>i\<close> has no
  block number the answer is rejected at once, after \<open>i + 1\<close> draws. When the check of
  the trusted answer rejects, the validation step returns and leaves the world as it was:
  no pool data saved and no token pair marked complete, no call of \<open>score_miners\<close>, no
  vote. The payload that is empty is not covered: see below.
\<close>

lemma check_miner_answer_verdicts:
  "snd (check_miner_answer fetcher rng prompt trust) \<le> ANSWER_CHECK_COUNT
   \<and> (\<forall>d i. data trust = Some d \<and> d \<noteq> [] \<and> i < ANSWER_CHECK_COUNT
          \<and> (\<forall>j<i. draw_undecided fetcher prompt
                       (get_block_number_range fetcher (start_datetime prompt) (end_datetime prompt))
                       (random_choice rng j d))
          \<and> draw_outside (get_block_number_range fetcher (start_datetime prompt) (end_datetime prompt))
                (random_choice rng i d)
        \<longrightarrow> check_miner_answer fetcher rng prompt trust = (Inr False, Suc i))
   \<and> (\<forall>d i. data trust = Some d \<and> d \<noteq> [] \<and> i < ANSWER_CHECK_COUNT
          \<and> (\<forall>j<i. draw_undecided fetcher prompt
                       (get_block_number_range fetcher (start_datetime prompt) (end_datetime prompt))
                       (random_choice rng j d))
          \<and> draw_matches fetcher prompt
                (get_block_number_range fetcher (start_datetime prompt) (end_datetime prompt))
                (random_choice rng i d)
        \<longrightarrow> check_miner_answer fetcher rng prompt trust = (Inr True, Suc i))
   \<and> (\<forall>d. data trust = Some d \<and> d \<noteq> []
          \<and> (\<forall>j<ANSWER_CHECK_COUNT. draw_undecided fetcher prompt
                       (get_block_number_range fetcher (start_datetime prompt) (end_datetime prompt))
                       (random_choice rng j d))
        \<longrightarrow> check_miner_answer fetcher rng prompt trust = (Inr False, ANSWER_CHECK_COUNT))
   \<and> (\<forall>h key others. fst (check_miner_answer fetcher rng prompt trust) = Inr False
          \<and> most_common_hash set_iter (overall_hashes miner_answers) = Inr h
          \<and> trust_miner_results h (zip uids miner_answers) = (key, trust) # others
        \<longrightarrow> validate_step fetcher rng set_iter settings prompt uids miner_answers w = (Inr (), w))
   \<and> (\<forall>d i. data trust = Some d \<and> d \<noteq> [] \<and> i < ANSWER_CHECK_COUNT
          \<and> (\<forall>j<i. draw_undecided fetcher prompt
                       (get_block_number_range fetcher (start_datetime prompt) (end_datetime prompt))
                       (random_choice rng j d))
          \<and> block_number (random_choice rng i d) = None
        \<longrightarrow> check_miner_answer fetcher rng prompt trust = (Inr False, Suc i))"
proof -
  let ?r = "get_block_number_range fetcher (start_datetime prompt) (end_datetime prompt)"
  have draws: "snd (check_miner_answer fetcher rng prompt trust) \<le> ANSWER_CHECK_COUNT"
  proof (cases "data trust")
    case None
    then show ?thesis by (simp add: check_miner_answer_def)
  next
    case (Some d)
    with check_loop_draws[of fetcher prompt ?r d rng ANSWER_CHECK_COUNT 0]
    show ?thesis by (simp add: check_miner_answer_def)
  qed
  have outside: "check_miner_answer fetcher rng prompt trust = (Inr False, Suc i)"
    if "data trust = Some d" "d \<noteq> []" "i < ANSWER_CHECK_COUNT"
      "\<forall>j<i. draw_undecided fetcher prompt ?r (random_choice rng j d)"
      "draw_outside ?r (random_choice rng i d)" for d i
    using check_loop_first_outside[OF that(2,3,4,5)] that(1)
    by (simp add: check_miner_answer_def)
  have matches: "check_miner_answer fetcher rng prompt trust = (Inr True, Suc i)"
    if "data trust = Some d" "d \<noteq> []" "i < ANSWER_CHECK_COUNT"
      "\<forall>j<i. draw_undecided fetcher prompt ?r (random_choice rng j d)"
      "draw_matches fetcher prompt ?r (random_choice rng i d)" for d i
    using check_loop_first_match[OF that(2,3,4,5)] that(1)
    by (simp add: check_miner_answer_def)
  have nomatch: "check_miner_answer fetcher rng prompt trust = (Inr False, ANSWER_CHECK_COUNT)"
    if "data trust = Some d" "d \<noteq> []"
      "\<forall>j<ANSWER_CHECK_COUNT. draw_undecided fetcher prompt ?r (random_choice rng j d)" for d
    using check_loop_no_match[OF that(2,3)] that(1)
    by (simp add: check_miner_answer_def)
  have abandoned: "validate_step fetcher rng set_iter settings prompt uids miner_answers w = (Inr (), w)"
    if "fst (check_miner_answer fetcher rng prompt trust) = Inr False"
      "most_common_hash set_iter (overall_hashes miner_answers) = Inr h"
      "trust_miner_results h (zip uids miner_answers) = (key, trust) # others" for h key others
    using that by (rule validate_step_rejected)
  have missing: "check_miner_answer fetcher rng prompt trust = (Inr False, Suc i)"
    if "data trust = Some d" "d \<noteq> []" "i < ANSWER_CHECK_COUNT"
      "\<forall>j<i. draw_undecided fetcher prompt ?r (random_choice rng j d)"
      "block_number (random_choice rng i d) = None" for d i
    using check_loop_first_missing[OF that(2,3,4,5)] that(1)
    by (simp add: check_miner_answer_def)
  from draws outside matches nomatch abandoned missing show ?thesis by blast
qed

lemma check_miner_answer_verdicts_scenarios:
  "check_miner_answer scenario_fetcher (\<lambda>k. k) scenario_prompt
       (scenario_answer [record_outside] ''H1'' (1 / 10)) = (Inr False, 1)
   \<and> check_miner_answer scenario_fetcher (\<lambda>k. k) scenario_prompt
       (scenario_answer [record_unknown, record_match] ''H1'' (1 / 10)) = (Inr True, 2)
   \<and> check_miner_answer scenario_fetcher (\<lambda>k. k) scenario_prompt
       (scenario_answer [record_unknown] ''H1'' (1 / 10)) = (Inr False, 10)
   \<and> validate_step scenario_fetcher (\<lambda>k. k) remdups \<lparr>max_allowed_weights = 420\<rparr> scenario_prompt
         [1, 2] [Some (scenario_answer [record_unknown] ''H1'' (1 / 10)), None] empty_world
       = (Inr (), empty_world)
   \<and> check_miner_answer scenario_fetcher (\<lambda>k. k) scenario_prompt
       (scenario_answer [record_unknown, record_no_block] ''H1'' (1 / 10)) = (Inr False, 2)"
proof -
  let ?F = scenario_fetcher and ?R = "\<lambda>k :: nat. k" and ?P = scenario_prompt
  let ?A1 = "scenario_answer [record_outside] ''H1'' (1 / 10)"
  let ?A2 = "scenario_answer [record_unknown, record_match] ''H1'' (1 / 10)"
  let ?A3 = "scenario_answer [record_unknown] ''H1'' (1 / 10)"
  let ?A5 = "scenario_answer [record_unknown, record_no_block] ''H1'' (1 / 10)"
  have c1: "check_miner_answer ?F ?R ?P ?A1 = (Inr False, Suc 0)"
    by (rule check_miner_answer_verdicts[of ?F ?R ?P ?A1, THEN conjunct2, THEN conjunct1,
          rule_format, of "[record_outside]" 0])
       (simp add: scenario_defs)
  have c2: "check_miner_answer ?F ?R ?P ?A2 = (Inr True, Suc 1)"
    by (rule check_miner_answer_verdicts[of ?F ?R ?P ?A2, THEN conjunct2, THEN conjunct2,
          THEN conjunct1, rule_format, of "[record_unknown, record_match]" 1])
       (simp add: scenario_defs)
  have c3: "check_miner_answer ?F ?R ?P ?A3 = (Inr False, ANSWER_CHECK_COUNT)"
    by (rule check_miner_answer_verdicts[of ?F ?R ?P ?A3, THEN conjunct2, THEN conjunct2,
          THEN conjunct2, THEN conjunct1, rule_format, of "[record_unknown]"])
       (simp add: scenario_defs)
  have c4: "validate_step ?F ?R remdups \<lparr>max_allowed_weights = 420\<rparr> ?P
         [1, 2] [Some ?A3, None] empty_world = (Inr (), empty_world)"
    by (rule check_miner_answer_verdicts[of ?F ?R ?P ?A3, THEN conjunct2, THEN conjunct2,
          THEN conjunct2, THEN conjunct2, THEN conjunct1, rule_format,
          of remdups _ "''H1''" _ 1 "[]"])
       (simp add: c3[unfolded scenario_answer_def] overall_hashes_def most_common_hash_def py_max_key_def
          trust_miner_results_def scenario_answer_def)
  have c5: "check_miner_answer ?F ?R ?P ?A5 = (Inr False, Suc 1)"
    by (rule check_miner_answer_verdicts[of ?F ?R ?P ?A5, THEN conjunct2, THEN conjunct2,
          THEN conjunct2, THEN conjunct2, THEN conjunct2, rule_format,
          of "[record_unknown, record_no_block]" 1])
       (simp add: scenario_defs)
  from c1 c2 c3 c4 c5 show ?thesis by (simp add: ANSWER_CHECK_COUNT_def)
qed

text \<open>
  Claim C6 says that the spot check ends in a verdict, and that when no draw produces a
  match the verdict is rejection, after which the round is abandoned. When the miners
  agree on a payload with no records, \<open>check_miner_answer\<close> reaches no verdict:
  \<open>random.choice\<close> raises \<open>IndexError\<close> on the empty list at the first iteration, before
  any record is drawn, and the validation step ends with that exception instead of
  returning.
\<close>

theorem check_miner_answer_empty_payload_raises:
  "check_miner_answer scenario_fetcher (\<lambda>k. k) scenario_prompt
       (scenario_answer [] ''H0'' (1 / 10)) = (Inl IndexError, 0)
   \<and> validate_step scenario_fetcher (\<lambda>k. k) remdups \<lparr>max_allowed_weights = 420\<rparr> scenario_prompt
         [1, 2] [Some (scenario_answer [] ''H0'' (1 / 10)), Some (scenario_answer [] ''H0'' (2 / 10))]
         empty_world
       = (Inl IndexError, empty_world)"
proof -
  have chk: "check_miner_answer scenario_fetcher (\<lambda>k. k) scenario_prompt
       (scenario_answer [] ''H0'' (1 / 10)) = (Inl IndexError, 0)"
    by (rule check_miner_answer_empty_payload) (simp add: scenario_answer_def)
  have step: "validate_step scenario_fetcher (\<lambda>k. k) remdups \<lparr>max_allowed_weights = 420\<rparr>
         scenario_prompt [1, 2]
         [Some (scenario_answer [] ''H0'' (1 / 10)), Some (scenario_answer [] ''H0'' (2 / 10))]
         empty_world
       = (Inl IndexError, empty_world)"
    by (rule validate_step_check_raises[where h = "''H0''" and key = 1
          and trust = "scenario_answer [] ''H0'' (1 / 10)"
          and others = "[(2, scenario_answer [] ''H0'' (2 / 10))]"])
       (simp_all add: chk overall_hashes_def most_common_hash_def py_max_key_def
          trust_miner_results_def scenario_answer_def chk[unfolded scenario_answer_def])
  from chk step show ?thesis by simp
qed

text \<open>
  Claim C7: when no reply carries a payload (every reply is \<open>None\<close>), the validation
  step returns before the consensus, the check, the scoring and the vote: the world is
  unchanged, so \<open>score_miners\<close> is not called and \<open>set_weights\<close> receives no scores.
\<close>

theorem validate_step_no_consensus:
  assumes "\<forall>r\<in>set miner_answers. r = None"
  shows "validate_step fetcher rng set_iter settings prompt uids miner_answers w = (Inr (), w)"
  using overall_hashes_all_None[OF assms] by (simp add: validate_step_def Let_def)

theorem validate_step_no_consensus_witness:
  "list_all (\<lambda>r. r = None) [None, None, None, None, None :: miner_answer option]
   \<and> validate_step scenario_fetcher (\<lambda>k. k) remdups \<lparr>max_allowed_weights = 420\<rparr> scenario_prompt
         [1, 2, 3, 4, 5] [None, None, None, None, None] empty_world
       = (Inr (), empty_world)
   \<and> ledger empty_world = [] \<and> score_calls empty_world = [] \<and> saved_pool_data empty_world = []"
  using validate_step_no_consensus[of "[None, None, None, None, None]" scenario_fetcher "\<lambda>k. k"
      remdups "\<lparr>max_allowed_weights = 420\<rparr>" scenario_prompt "[1, 2, 3, 4, 5]" empty_world]
  by (simp add: empty_world_def)

section \<open>The consensus\<close>

lemma max_key_loop_first_max:
  "\<exists>before after. m # xs = before @ max_key_loop f m xs # after
     \<and> (\<forall>y\<in>set before. f y < f (max_key_loop f m xs))
     \<and> (\<forall>z\<in>set after. f z \<le> f (max_key_loop f m xs))"
proof (induction xs arbitrary: m)
  case Nil
  have "[m] = [] @ m # [] \<and> (\<forall>y\<in>set []. f y < f m) \<and> (\<forall>z\<in>set []. f z \<le> f m)"
    by simp
  then show ?case unfolding max_key_loop.simps by blast
next
  case (Cons x xs)
  define m' where "m' = (if f m < f x then x else m)"
  define w where "w = max_key_loop f m' xs"
  have w: "max_key_loop f m (x # xs) = w" by (simp add: w_def m'_def)
  have m_le: "f m \<le> f m'" and x_le: "f x \<le> f m'" by (simp_all add: m'_def)
  from Cons.IH[of m'] obtain before after where
    split: "m' # xs = before @ w # after"
    and lt: "\<forall>y\<in>set before. f y < f w"
    and le: "\<forall>z\<in>set after. f z \<le> f w"
    unfolding w_def by blast
  show ?case
  proof (cases before)
    case Nil
    with split have w': "w = m'" and after: "after = xs" by simp_all
    show ?thesis
    proof (cases "f m < f x")
      case True
      then have "m' = x" by (simp add: m'_def)
      with w' True after le have "m # x # xs = [m] @ w # xs \<and> (\<forall>y\<in>set [m]. f y < f w)
          \<and> (\<forall>z\<in>set xs. f z \<le> f w)"
        by simp
      then show ?thesis unfolding w by blast
    next
      case False
      then have "m' = m" by (simp add: m'_def)
      with w' False after le have "m # x # xs = [] @ w # (x # xs) \<and> (\<forall>y\<in>set []. f y < f w)
          \<and> (\<forall>z\<in>set (x # xs). f z \<le> f w)"
        by (simp add: not_less)
      then show ?thesis unfolding w by blast
    qed
  next
    case (Cons b before')
    with split have b: "b = m'" and xs: "xs = before' @ w # after" by simp_all
    from lt Cons b have m'lt: "f m' < f w" by simp
    from m_le x_le m'lt have "f m < f w" and "f x < f w" by linarith+
    moreover from lt Cons have "\<forall>y\<in>set before'. f y < f w" by simp
    ultimately have "m # x # xs = (m # x # before') @ w # after
        \<and> (\<forall>y\<in>set (m # x # before'). f y < f w) \<and> (\<forall>z\<in>set after. f z \<le> f w)"
      using xs le by simp
    then show ?thesis unfolding w by blast
  qed
qed

lemma py_max_key_first_max:
  assumes "xs \<noteq> []"
  shows "\<exists>w before after. py_max_key f xs = Inr w \<and> xs = before @ w # after
     \<and> (\<forall>y\<in>set before. f y < f w) \<and> (\<forall>z\<in>set after. f z \<le> f w)"
proof -
  from assms obtain m rest where xs: "xs = m # rest" by (cases xs) auto
  from max_key_loop_first_max[of m rest f] show ?thesis
    unfolding xs by (simp add: py_max_key_def)
qed

lemma length_trust_miner_results:
  "length uids = length miner_answers \<Longrightarrow>
   length (trust_miner_results h (zip uids miner_answers)) = count_list (overall_hashes miner_answers) h"
proof (induction uids miner_answers rule: list_induct2)
  case Nil
  show ?case by (simp add: trust_miner_results_def overall_hashes_def)
next
  case (Cons u us r rs)
  then show ?case
    by (cases r) (simp_all add: trust_miner_results_def overall_hashes_def)
qed

text \<open>
  Claim C3 says that ties between equally large groups go to the hash that appears
  first in the input sequence. The source takes \<open>max\<close> over \<open>set(overall_hashes)\<close>, so
  a tie goes to the hash that comes first in the iteration order of the set. With the
  replies \<open>H2\<close>, \<open>H1\<close> (one each) and a set that iterates \<open>H1\<close> before \<open>H2\<close>, the
  winner is \<open>H1\<close>, while \<open>H2\<close> is the hash that appears first in the input.
\<close>

theorem most_common_hash_tie_counterexample:
  "most_common_hash (\<lambda>hs. rev (remdups hs)) [''H2'', ''H1''] = Inr ''H1''
   \<and> count_list [''H2'', ''H1''] ''H1'' = count_list [''H2'', ''H1''] ''H2''
   \<and> hd [''H2'', ''H1''] = ''H2''
   \<and> set (rev (remdups [''H2'', ''H1''])) = set [''H2'', ''H1'']"
  by (simp add: most_common_hash_def py_max_key_def insert_commute)

text \<open>
  Claim C3, amended: for replies of which one at least carries a payload, and for a
  fixed iteration order of the set of hashes, selection returns a hash whose group is
  the largest; among equally large groups it returns the one that comes first in the
  iteration order of the set (every hash before it in that order has a strictly smaller
  group); and the supporting replies are exactly as many as the occurrences of the
  winning hash among the replies, at least one. Being functions of the reply sequence
  and of that order, the winning hash and the membership are the same on every run.
\<close>

theorem consensus_selection:
  assumes "overall_hashes miner_answers \<noteq> []"
    and "set (set_iter (overall_hashes miner_answers)) = set (overall_hashes miner_answers)"
    and "length uids = length miner_answers"
  shows "\<exists>h before after.
           most_common_hash set_iter (overall_hashes miner_answers) = Inr h
           \<and> set_iter (overall_hashes miner_answers) = before @ h # after
           \<and> (\<forall>g\<in>set before. count_list (overall_hashes miner_answers) g
                                 < count_list (overall_hashes miner_answers) h)
           \<and> (\<forall>g\<in>set (overall_hashes miner_answers).
                 count_list (overall_hashes miner_answers) g
                   \<le> count_list (overall_hashes miner_answers) h)
           \<and> length (trust_miner_results h (zip uids miner_answers))
                 = count_list (overall_hashes miner_answers) h
           \<and> 0 < count_list (overall_hashes miner_answers) h"
proof -
  let ?hs = "overall_hashes miner_answers"
  let ?c = "count_list ?hs"
  from assms(1,2) have ne: "set_iter ?hs \<noteq> []" by auto
  from py_max_key_first_max[OF ne, of ?c] obtain h before after where
    res: "py_max_key ?c (set_iter ?hs) = Inr h"
    and split: "set_iter ?hs = before @ h # after"
    and lt: "\<forall>y\<in>set before. ?c y < ?c h"
    and le: "\<forall>z\<in>set after. ?c z \<le> ?c h"
    by blast
  have all: "?c g \<le> ?c h" if "g \<in> set ?hs" for g
  proof -
    from that assms(2) have "g \<in> set (set_iter ?hs)" by simp
    with split have "g \<in> set before \<or> g = h \<or> g \<in> set after" by auto
    with lt le show ?thesis by (auto simp: less_imp_le)
  qed
  from split assms(2) have "h \<in> set ?hs" by (metis in_set_conv_decomp)
  then have "?c h \<noteq> 0" by (simp add: count_list_0_iff)
  then have pos: "0 < ?c h" by simp
  from res split lt all pos length_trust_miner_results[OF assms(3), of h]
  show ?thesis unfolding most_common_hash_def by blast
qed

theorem consensus_selection_witness:
  "overall_hashes scenario_a_answers = [''H1'', ''H1'', ''H2'', ''H1'', ''H1'']
   \<and> set (remdups (overall_hashes scenario_a_answers)) = set (overall_hashes scenario_a_answers)
   \<and> length [1, 2, 3, 4, 5 :: int] = length scenario_a_answers
   \<and> most_common_hash remdups (overall_hashes scenario_a_answers) = Inr ''H1''
   \<and> map fst (trust_miner_results ''H1'' (zip [1, 2, 3, 4, 5] scenario_a_answers)) = [1, 2, 4, 5]
   \<and> count_list (overall_hashes scenario_a_answers) ''H1'' = 4"
proof -
  have hs: "overall_hashes scenario_a_answers = [''H1'', ''H1'', ''H2'', ''H1'', ''H1'']"
    by (simp add: scenario_a_answers_def overall_hashes_def scenario_answer_def)
  have len: "length [1, 2, 3, 4, 5 :: int] = length scenario_a_answers"
    by (simp add: scenario_a_answers_def)
  have ne: "overall_hashes scenario_a_answers \<noteq> []" by (simp add: hs)
  have st: "set (remdups (overall_hashes scenario_a_answers)) = set (overall_hashes scenario_a_answers)"
    by simp
  from consensus_selection[of scenario_a_answers remdups "[1, 2, 3, 4, 5]", OF ne st len]
  obtain h where
    h: "most_common_hash remdups (overall_hashes scenario_a_answers) = Inr h"
    and n: "length (trust_miner_results h (zip [1, 2, 3, 4, 5] scenario_a_answers))
              = count_list (overall_hashes scenario_a_answers) h"
    by blast
  have h1: "most_common_hash remdups (overall_hashes scenario_a_answers) = Inr ''H1''"
    by (simp add: hs most_common_hash_def py_max_key_def)
  with h have "h = ''H1''" by simp
  with n have cnt: "count_list (overall_hashes scenario_a_answers) ''H1''
      = length (trust_miner_results ''H1'' (zip [1, 2, 3, 4, 5] scenario_a_answers))"
    by simp
  have members: "map fst (trust_miner_results ''H1'' (zip [1, 2, 3, 4, 5] scenario_a_answers))
      = [1, 2, 4, 5]"
    by (simp add: scenario_a_answers_def trust_miner_results_def scenario_answer_def)
  from cnt have "count_list (overall_hashes scenario_a_answers) ''H1''
      = length (map fst (trust_miner_results ''H1'' (zip [1, 2, 3, 4, 5] scenario_a_answers)))"
    by simp
  then have four: "count_list (overall_hashes scenario_a_answers) ''H1'' = 4"
    unfolding members by simp
  from hs st len h1 members four show ?thesis by blast
qed

section \<open>The scoring\<close>

text \<open>
  The first loop of \<open>score_miners\<close> does skip the miners without an answer, and it
  raises at the first miner with one. Whatever the poll results are, \<open>score_miners\<close>
  ends with an exception.
\<close>

lemma accuracy_loop_skips_absent:
  "accuracy_loop miner_results trust acc
     = accuracy_loop (filter (\<lambda>(uid, r). r \<noteq> None) miner_results) trust acc"
proof (induction miner_results arbitrary: acc)
  case Nil
  show ?case by simp
next
  case (Cons p rs)
  obtain uid r where p: "p = (uid, r)" by (cases p)
  show ?case
  proof (cases r)
    case None
    with p Cons.IH[of acc] show ?thesis by simp
  next
    case (Some a)
    with p show ?thesis by (simp add: score_miner_two_args_def)
  qed
qed

lemma accuracy_loop_reply_raises:
  "(uid, Some a) \<in> set miner_results \<Longrightarrow> accuracy_loop miner_results trust acc = Inl TypeError"
proof (induction miner_results arbitrary: acc)
  case Nil
  then show ?case by simp
next
  case (Cons p rs)
  obtain u r where p: "p = (u, r)" by (cases p)
  show ?case
  proof (cases r)
    case None
    with p Cons.prems have "(uid, Some a) \<in> set rs" by auto
    from Cons.IH[OF this] None p show ?thesis by simp
  next
    case (Some b)
    with p show ?thesis by (simp add: score_miner_two_args_def)
  qed
qed

lemma accuracy_loop_all_absent:
  "\<forall>(uid, r)\<in>set miner_results. r = None \<Longrightarrow> accuracy_loop miner_results trust acc = Inr acc"
  by (induction miner_results arbitrary: acc) auto

lemma score_miners_never_returns: "\<exists>e. score_miners miner_results trust = Inl e"
proof (cases "\<exists>uid a. (uid, Some a) \<in> set miner_results")
  case True
  then obtain uid a where "(uid, Some a) \<in> set miner_results" by blast
  from accuracy_loop_reply_raises[OF this] show ?thesis by (simp add: score_miners_def)
next
  case False
  then have absent: "\<forall>(uid, r)\<in>set miner_results. r = None"
    by (metis (mono_tags, lifting) case_prodI2 not_None_eq)
  have acc: "accuracy_loop miner_results trust [] = Inr []"
    by (rule accuracy_loop_all_absent[OF absent])
  show ?thesis
  proof (cases miner_results)
    case Nil
    then show ?thesis
      by (simp add: score_miners_def process_time_score_def dict_of_def py_max_def)
  next
    case (Cons p rs)
    obtain uid r where p: "p = (uid, r)" by (cases p)
    with absent Cons have "r = None" by auto
    with p Cons acc show ?thesis
      by (simp add: score_miners_def process_time_score_def)
  qed
qed

text \<open>
  Scenario D, on the comprehensions that compute the latency score alone: latencies of
  0.1 s and 0.3 s give the scores 1 and 0.5.
\<close>

lemma process_time_score_scenario_d:
  "process_time_score [(1, Some (scenario_answer [record_match] ''H1'' (1 / 10))),
                       (2, Some (scenario_answer [record_match] ''H1'' (3 / 10)))]
     = Inr [(1, 1), (2, 1 / 2)]"
  by (simp add: process_time_score_def dict_of_def py_max_def py_min_def scenario_answer_def)

text \<open>
  Claim C1 says that the composite score recorded for each replying worker lies in
  [0, 1]. For one worker whose reply equals the consensus, no score is recorded:
  \<open>score_miners\<close> on that reply raises \<open>TypeError\<close> at the call of \<open>_score_miner\<close>,
  \<open>_score_miner\<close> called with its three arguments raises \<open>TypeError\<close> at \<open>^\<close>, and the
  validation step of that round ends with \<open>ValueError\<close> after saving the pool data.
\<close>

theorem score_miners_replying_worker_raises:
  "score_miners [(1, Some (scenario_answer [record_match] ''H1'' (1 / 5)))]
       (scenario_answer [record_match] ''H1'' (1 / 5)) = Inl TypeError
   \<and> score_miner scenario_prompt (Some (scenario_answer [record_match] ''H1'' (1 / 5)))
       (scenario_answer [record_match] ''H1'' (1 / 5)) = Inl TypeError
   \<and> validate_step scenario_fetcher (\<lambda>k. k) remdups \<lparr>max_allowed_weights = 420\<rparr> scenario_prompt
         [1] [Some (scenario_answer [record_match] ''H1'' (1 / 5))] empty_world
       = (Inl ValueError,
          \<lparr>saved_pool_data = [scenario_answer [record_match] ''H1'' (1 / 5)],
           score_calls = [[]], ledger = []\<rparr>)"
proof -
  let ?A = "scenario_answer [record_match] ''H1'' (1 / 5)"
  have a: "score_miners [(1, Some ?A)] ?A = Inl TypeError"
    by (simp add: score_miners_def score_miner_two_args_def)
  have b: "score_miner scenario_prompt (Some ?A) ?A = Inl TypeError"
    by (simp add: score_miner_def scenario_answer_def record_match_def py_xor_float_int_def)
  have chk: "check_miner_answer scenario_fetcher (\<lambda>k. k) scenario_prompt ?A = (Inr True, 1)"
    by (simp add: check_miner_answer_def ANSWER_CHECK_COUNT_def numeral_eq_Suc
        check_loop.simps(2) scenario_defs)
  have c: "validate_step scenario_fetcher (\<lambda>k. k) remdups \<lparr>max_allowed_weights = 420\<rparr>
         scenario_prompt [1] [Some ?A] empty_world
       = (Inl ValueError,
          empty_world\<lparr>saved_pool_data := saved_pool_data empty_world @ [?A],
                       score_calls := score_calls empty_world @ [[]]\<rparr>)"
    by (rule validate_step_accepted[where h = "''H1''" and key = 1 and others = "[]"])
       (simp_all add: chk overall_hashes_def most_common_hash_def py_max_key_def
          trust_miner_results_def scenario_answer_def chk[unfolded scenario_answer_def])
  from a b c show ?thesis by (simp add: empty_world_def)
qed

text \<open>
  Claim C8 says that the accuracy of a reply with zero records is defined, and is 0.
  \<open>_score_miner\<close> on such a reply divides by \<open>cnt_all\<close> = 0 and raises
  \<open>ZeroDivisionError\<close>.
\<close>

theorem score_miner_empty_payload_raises:
  "score_miner scenario_prompt (Some (scenario_answer [] ''H0'' (1 / 5)))
       (scenario_answer [record_match] ''H1'' (1 / 5)) = Inl ZeroDivisionError"
  by (simp add: score_miner_def scenario_answer_def)

text \<open>
  Claim C2 says that when all latencies are equal every replying worker gets the latency
  score 1 and no division by zero is raised. The latency comprehensions of
  \<open>score_miners\<close> divide by \<open>max_time - min_time\<close> = 0 and raise
  \<open>ZeroDivisionError\<close>, for a single worker and for two workers with the same latency;
  \<open>score_miners\<close> as a whole raises before it reaches them.
\<close>

theorem process_time_score_equal_latencies_raises:
  "process_time_score [(1, Some (scenario_answer [record_match] ''H1'' (1 / 5)))]
       = Inl ZeroDivisionError
   \<and> process_time_score [(1, Some (scenario_answer [record_match] ''H1'' (1 / 5))),
                          (2, Some (scenario_answer [record_match] ''H1'' (1 / 5)))]
       = Inl ZeroDivisionError
   \<and> score_miners [(1, Some (scenario_answer [record_match] ''H1'' (1 / 5)))]
       (scenario_answer [record_match] ''H1'' (1 / 5)) = Inl TypeError"
  by (simp add: process_time_score_def dict_of_def py_max_def py_min_def scenario_answer_def
      score_miners_def score_miner_two_args_def)

text \<open>
  Claim C4 says that workers without a reply are left out of the scoring and that the
  minimum and maximum latency are taken over the workers that replied. The comprehension
  that collects the process times reads every poll result: with a worker that did not
  reply among them it raises \<open>TypeError\<close>, and so does \<open>score_miners\<close> when the only
  worker did not reply.
\<close>

theorem process_time_score_absent_reply_raises:
  "process_time_score [(1, Some (scenario_answer [record_match] ''H1'' (1 / 5))), (2, None)]
       = Inl TypeError
   \<and> score_miners [(2, None)] (scenario_answer [record_match] ''H1'' (1 / 5)) = Inl TypeError"
  by (simp add: process_time_score_def score_miners_def)

end
